theory Spec2Isabelle
  imports Complex_Main "HOL-Library.Word"
begin

section \<open>Sparse vectors with intersection statistics (space\_sparse\_vector\_inter.cc)\<close>

text \<open>
  The file \<^verbatim>\<open>space_sparse_vector_inter.cc\<close> implements the member functions of
  \<^verbatim>\<open>SpaceSparseVectorInter<dist_t>\<close>. The embedding below follows it function by function.

  \<^item> \<^verbatim>\<open>dist_t\<close> and \<^verbatim>\<open>float\<close> are one numeric type \<open>'v\<close>, constrained only by the
    syntactic classes of the operations the code applies (\<open>0\<close>, \<open>1\<close>, \<open>+\<close>, \<open>*\<close>, \<open>/\<close>,
    \<open><\<close>). Rounding and the conversions between \<^verbatim>\<open>float\<close> and \<^verbatim>\<open>double\<close> are not
    modelled; a theorem uses an algebraic law of \<open>'v\<close> only where its sort names one.
    \<^verbatim>\<open>sqrt\<close> is the parameter \<open>fsqrt\<close>.
  \<^item> \<^verbatim>\<open>uint32_t\<close> is \<open>32 word\<close>: the cursors \<^verbatim>\<open>A\<close> and \<^verbatim>\<open>B\<close> wrap around.
    \<^verbatim>\<open>size_t\<close> values are natural numbers.
  \<^item> \<^verbatim>\<open>UnpackSparseElements\<close> is defined outside this file: the decoded vectors are
    the inputs of ComputeOverlapInfo, ComputeOverlap and CreateDenseVectFromObj, which
    start by unpacking their arguments.
  \<^item> \<^verbatim>\<open>operator[]\<close> of \<^verbatim>\<open>std::vector\<close> at an index that is not below \<^verbatim>\<open>size()\<close>, a
    division by zero, \<^verbatim>\<open>delete []\<close> of a pointer to no live buffer and a read through such
    a pointer are undefined behaviour; they are the values of type \<open>fault\<close>.
  \<^item> The loops over \<^verbatim>\<open>uint32_t\<close> cursors compare the cursor with a \<^verbatim>\<open>size_t\<close>. They are
    defined with \<^theory_text>\<open>partial_function (option)\<close>: \<open>None\<close> is a loop that never ends.
\<close>

subsection \<open>Data\<close>

text \<open>\<^verbatim>\<open>SparseVectElem<dist_t>\<close> with its fields \<^verbatim>\<open>id_\<close> and \<^verbatim>\<open>val_\<close>.\<close>

record 'v SparseVectElem =
  id_of :: "32 word"
  val_of :: 'v

text \<open>
  Modelled from the spec: \<^verbatim>\<open>OverlapInfo\<close> is declared outside the source file. The spec
  lists an integer \<open>overlapCount\<close> and five floating-point fields; the names are those
  the source assigns to. The counter is a natural number.
\<close>

record 'v OverlapInfo =
  overlap_qty :: nat
  overlap_dotprod_norm :: 'v
  overlap_sum_left_norm :: 'v
  overlap_sum_right_norm :: 'v
  diff_sum_left_norm :: 'v
  diff_sum_right_norm :: 'v

text \<open>
  Modelled from the spec: the declaration \<^verbatim>\<open>OverlapInfo res;\<close> starts from a record whose
  counter and sums are zero (the source adds into the fields without assigning them first).
\<close>

definition OverlapInfo_init :: "('v::zero) OverlapInfo" where
  "OverlapInfo_init =
     \<lparr>overlap_qty = 0, overlap_dotprod_norm = 0, overlap_sum_left_norm = 0,
      overlap_sum_right_norm = 0, diff_sum_left_norm = 0, diff_sum_right_norm = 0\<rparr>"

datatype fault = OutOfRange | DivisionByZero | InvalidDelete | InvalidRead

subsection \<open>ComputeOverlapInfo\<close>

text \<open>
  \<^verbatim>\<open>for (uint32_t A = 0; A < elems.size(); ++A) norm += elems[A].val_*elems[A].val_;\<close>
\<close>

partial_function (option) norm_loop ::
  "('v::{plus,times}) SparseVectElem list \<Rightarrow> 32 word \<Rightarrow> 'v \<Rightarrow> 'v option" where
  "norm_loop elems A acc =
     (if unat A < length elems
      then norm_loop elems (A + 1) (acc + val_of (elems ! unat A) * val_of (elems ! unat A))
      else Some acc)"

text \<open>
  The merge loop, \<^verbatim>\<open>while (A < elemsA.size() && B < elemsA.size())\<close>. Both bounds are the
  size of \<^verbatim>\<open>elemsA\<close>, as in the source. \<^verbatim>\<open>elemsA[A]\<close> is in range by the loop condition;
  \<^verbatim>\<open>elemsB[B]\<close> is checked against the size of \<^verbatim>\<open>elemsB\<close>. The loop returns the cursors
  with the record, since the two loops after it continue from them.
\<close>

partial_function (option) merge_loop ::
  "('v::{plus,times}) SparseVectElem list \<Rightarrow> 'v SparseVectElem list \<Rightarrow> 32 word \<Rightarrow> 32 word \<Rightarrow>
     'v OverlapInfo \<Rightarrow> (fault + 32 word \<times> 32 word \<times> 'v OverlapInfo) option" where
  "merge_loop elemsA elemsB A B res =
     (if unat A < length elemsA \<and> unat B < length elemsA then
        if length elemsB \<le> unat B then Some (Inl OutOfRange)
        else
          let idA = id_of (elemsA ! unat A); idB = id_of (elemsB ! unat B) in
          if idA < idB then
            merge_loop elemsA elemsB (A + 1) B
              (res\<lparr>diff_sum_left_norm := diff_sum_left_norm res + val_of (elemsA ! unat A)\<rparr>)
          else if idA > idB then
            merge_loop elemsA elemsB A (B + 1)
              (res\<lparr>diff_sum_right_norm := val_of (elemsB ! unat B)\<rparr>)
          else
            merge_loop elemsA elemsB (A + 1) (B + 1)
              (res\<lparr>overlap_dotprod_norm :=
                     overlap_dotprod_norm res + val_of (elemsA ! unat A) * val_of (elemsB ! unat B),
                   overlap_sum_left_norm := overlap_sum_left_norm res + val_of (elemsA ! unat A),
                   overlap_sum_right_norm := val_of (elemsB ! unat B),
                   overlap_qty := overlap_qty res + 1\<rparr>)
      else Some (Inr (A, B, res)))"

text \<open>\<^verbatim>\<open>while (A < elemsA.size()) { res.diff_sum_left_norm_ += elemsA[A].val_; A++; }\<close>\<close>

partial_function (option) drain_left ::
  "('v::plus) SparseVectElem list \<Rightarrow> 32 word \<Rightarrow> 'v OverlapInfo \<Rightarrow>
     (32 word \<times> 'v OverlapInfo) option" where
  "drain_left elemsA A res =
     (if unat A < length elemsA
      then drain_left elemsA (A + 1)
             (res\<lparr>diff_sum_left_norm := diff_sum_left_norm res + val_of (elemsA ! unat A)\<rparr>)
      else Some (A, res))"

text \<open>\<^verbatim>\<open>while (B < elemsB.size()) { res.diff_sum_right_norm_ = elemsB[B].val_; B++; }\<close>\<close>

partial_function (option) drain_right ::
  "'v SparseVectElem list \<Rightarrow> 32 word \<Rightarrow> 'v OverlapInfo \<Rightarrow>
     (32 word \<times> 'v OverlapInfo) option" where
  "drain_right elemsB B res =
     (if unat B < length elemsB
      then drain_right elemsB (B + 1) (res\<lparr>diff_sum_right_norm := val_of (elemsB ! unat B)\<rparr>)
      else Some (B, res))"

text \<open>
  The merge loop and the two loops after it: the record as it is before the
  normalisation at the end of \<^verbatim>\<open>ComputeOverlapInfo\<close>.
\<close>

definition overlap_scan ::
  "('v::{zero,plus,times}) SparseVectElem list \<Rightarrow> 'v SparseVectElem list \<Rightarrow>
     (fault + 'v OverlapInfo) option" where
  "overlap_scan elemsA elemsB =
     (case merge_loop elemsA elemsB 0 0 OverlapInfo_init of
        None \<Rightarrow> None
      | Some (Inl f) \<Rightarrow> Some (Inl f)
      | Some (Inr (A, B, res)) \<Rightarrow>
          (case drain_left elemsA A res of
             None \<Rightarrow> None
           | Some (A', res') \<Rightarrow>
               (case drain_right elemsB B res' of
                  None \<Rightarrow> None
                | Some (B', res'') \<Rightarrow> Some (Inr res''))))"

text \<open>\<^verbatim>\<open>1.0/norm\<close>, with the division by zero made a fault.\<close>

definition checked_div :: "('v::{zero,inverse}) \<Rightarrow> 'v \<Rightarrow> fault + 'v" where
  "checked_div x y = (if y = 0 then Inl DivisionByZero else Inr (x / y))"

text \<open>\<^verbatim>\<open>if (norm_left > 0) { float inv = 1.0/norm_left; ... }\<close>\<close>

definition normalize_left ::
  "('v::{zero,one,times,inverse,ord}) \<Rightarrow> 'v OverlapInfo \<Rightarrow> fault + 'v OverlapInfo" where
  "normalize_left norm_left res =
     (if norm_left > 0 then
        (case checked_div 1 norm_left of
           Inl f \<Rightarrow> Inl f
         | Inr inv' \<Rightarrow>
             Inr (res\<lparr>overlap_sum_left_norm := overlap_sum_left_norm res * inv',
                      diff_sum_left_norm := diff_sum_left_norm res * inv',
                      overlap_dotprod_norm := overlap_dotprod_norm res * inv'\<rparr>))
      else Inr res)"

text \<open>\<^verbatim>\<open>if (norm_right > 0) { float inv = 1.0/norm_right; ... }\<close>\<close>

definition normalize_right ::
  "('v::{zero,one,times,inverse,ord}) \<Rightarrow> 'v OverlapInfo \<Rightarrow> fault + 'v OverlapInfo" where
  "normalize_right norm_right res =
     (if norm_right > 0 then
        (case checked_div 1 norm_right of
           Inl f \<Rightarrow> Inl f
         | Inr inv' \<Rightarrow>
             Inr (res\<lparr>overlap_sum_right_norm := overlap_sum_right_norm res * inv',
                      diff_sum_right_norm := diff_sum_right_norm res * inv',
                      overlap_dotprod_norm := overlap_dotprod_norm res * inv'\<rparr>))
      else Inr res)"

definition normalize ::
  "('v::{zero,one,times,inverse,ord}) \<Rightarrow> 'v \<Rightarrow> 'v OverlapInfo \<Rightarrow> fault + 'v OverlapInfo" where
  "normalize norm_left norm_right res =
     (case normalize_left norm_left res of
        Inl f \<Rightarrow> Inl f
      | Inr res' \<Rightarrow> normalize_right norm_right res')"

text \<open>
  The whole function, in the order of the source: the two norms, the merge loop, the two
  loops after it, the normalisation.
\<close>

definition ComputeOverlapInfo ::
  "('v \<Rightarrow> 'v) \<Rightarrow> ('v::{zero,one,plus,times,inverse,ord}) SparseVectElem list \<Rightarrow>
     'v SparseVectElem list \<Rightarrow> (fault + 'v OverlapInfo) option" where
  "ComputeOverlapInfo fsqrt elemsA elemsB =
     (case norm_loop elemsA 0 0 of
        None \<Rightarrow> None
      | Some sqA \<Rightarrow>
          (case norm_loop elemsB 0 0 of
             None \<Rightarrow> None
           | Some sqB \<Rightarrow>
               (case overlap_scan elemsA elemsB of
                  None \<Rightarrow> None
                | Some (Inl f) \<Rightarrow> Some (Inl f)
                | Some (Inr res) \<Rightarrow> Some (normalize (fsqrt sqA) (fsqrt sqB) res))))"

text \<open>The precondition of the spec: ids sorted ascending and unique.\<close>

definition sorted_unique :: "'v SparseVectElem list \<Rightarrow> bool" where
  "sorted_unique elems = sorted_wrt (<) (map id_of elems)"

subsection \<open>The writes of the three loops, in order\<close>

text \<open>
  To state what the record holds after the loops, the writes the merge loop and the two
  loops after it perform are listed in order, with natural-number cursors. A \<open>DiffLeft a\<close>
  is an addition of \<open>a\<close> into \<^verbatim>\<open>diff_sum_left_norm_\<close>, a \<open>DiffRight b\<close> an assignment of
  \<open>b\<close> to \<^verbatim>\<open>diff_sum_right_norm_\<close>, and a \<open>Match a b\<close> the step taken on equal ids. The
  condition of the merge steps is that of the source, with the read of \<^verbatim>\<open>elemsB[B]\<close> in range.
\<close>

datatype 'v touch = DiffLeft 'v | DiffRight 'v | Match 'v 'v

function touches ::
  "'v SparseVectElem list \<Rightarrow> 'v SparseVectElem list \<Rightarrow> nat \<Rightarrow> nat \<Rightarrow> 'v touch list" where
  "touches elemsA elemsB A B =
     (if A < length elemsA \<and> B < length elemsA \<and> B < length elemsB then
        if id_of (elemsA ! A) < id_of (elemsB ! B) then
          DiffLeft (val_of (elemsA ! A)) # touches elemsA elemsB (A + 1) B
        else if id_of (elemsA ! A) > id_of (elemsB ! B) then
          DiffRight (val_of (elemsB ! B)) # touches elemsA elemsB A (B + 1)
        else
          Match (val_of (elemsA ! A)) (val_of (elemsB ! B)) # touches elemsA elemsB (A + 1) (B + 1)
      else map (\<lambda>e. DiffLeft (val_of e)) (drop A elemsA)
         @ map (\<lambda>e. DiffRight (val_of e)) (drop B elemsB))"
  by pat_completeness auto
termination
  by (relation "measure (\<lambda>(elemsA, elemsB, A, B). (length elemsA - A) + (length elemsA - B))") auto

text \<open>The values added to the two left sums and the values assigned to the two right sums.\<close>

fun diff_left_adds :: "'v touch list \<Rightarrow> 'v list" where
  "diff_left_adds [] = []"
| "diff_left_adds (DiffLeft a # ts) = a # diff_left_adds ts"
| "diff_left_adds (DiffRight b # ts) = diff_left_adds ts"
| "diff_left_adds (Match a b # ts) = diff_left_adds ts"

fun overlap_left_adds :: "'v touch list \<Rightarrow> 'v list" where
  "overlap_left_adds [] = []"
| "overlap_left_adds (DiffLeft a # ts) = overlap_left_adds ts"
| "overlap_left_adds (DiffRight b # ts) = overlap_left_adds ts"
| "overlap_left_adds (Match a b # ts) = a # overlap_left_adds ts"

fun diff_right_writes :: "'v touch list \<Rightarrow> 'v list" where
  "diff_right_writes [] = []"
| "diff_right_writes (DiffLeft a # ts) = diff_right_writes ts"
| "diff_right_writes (DiffRight b # ts) = b # diff_right_writes ts"
| "diff_right_writes (Match a b # ts) = diff_right_writes ts"

fun overlap_right_writes :: "'v touch list \<Rightarrow> 'v list" where
  "overlap_right_writes [] = []"
| "overlap_right_writes (DiffLeft a # ts) = overlap_right_writes ts"
| "overlap_right_writes (DiffRight b # ts) = overlap_right_writes ts"
| "overlap_right_writes (Match a b # ts) = b # overlap_right_writes ts"

text \<open>The sum of squares that the norm loop computes, and the scaling of the last step.\<close>

definition sum_sq :: "('v::{zero,plus,times}) SparseVectElem list \<Rightarrow> 'v" where
  "sum_sq elems = foldl (\<lambda>s e. s + val_of e * val_of e) 0 elems"

definition scaled :: "('v::{zero,one,times,inverse,ord}) \<Rightarrow> 'v \<Rightarrow> 'v" where
  "scaled n x = (if 0 < n then x * (1 / n) else x)"

text \<open>What the merge loop has established when it ends (used in the lemmas below).\<close>

definition merge_post ::
  "('v::{plus,times}) SparseVectElem list \<Rightarrow> 'v SparseVectElem list \<Rightarrow> 32 word \<Rightarrow> 32 word \<Rightarrow>
     'v OverlapInfo \<Rightarrow> 32 word \<Rightarrow> 32 word \<Rightarrow> 'v OverlapInfo \<Rightarrow> bool" where
  "merge_post elemsA elemsB A B res A' B' res' \<longleftrightarrow>
     foldl (+) (diff_sum_left_norm res') (map val_of (drop (unat A') elemsA))
       = foldl (+) (diff_sum_left_norm res)
           (diff_left_adds (touches elemsA elemsB (unat A) (unat B)))
   \<and> overlap_sum_left_norm res'
       = foldl (+) (overlap_sum_left_norm res)
           (overlap_left_adds (touches elemsA elemsB (unat A) (unat B)))
   \<and> last (diff_sum_right_norm res' # map val_of (drop (unat B') elemsB))
       = last (diff_sum_right_norm res
           # diff_right_writes (touches elemsA elemsB (unat A) (unat B)))
   \<and> overlap_sum_right_norm res'
       = last (overlap_sum_right_norm res
           # overlap_right_writes (touches elemsA elemsB (unat A) (unat B)))
   \<and> overlap_qty res' + unat A \<le> overlap_qty res + unat A'
   \<and> (unat A \<le> length elemsA \<longrightarrow> unat A' \<le> length elemsA)"

subsection \<open>CreateDenseVectFromObj\<close>

text \<open>
  \<^verbatim>\<open>std::hash<size_t>\<close> belongs to the standard library: it is the parameter \<open>indexHash\<close>
  on natural numbers. The loop over the decoded vector \<open>target\<close> is structural;
  \<^verbatim>\<open>% nElem\<close> with \<^verbatim>\<open>nElem\<close> zero is a fault. The index \<open>idx\<close> is below \<open>nElem\<close>, the
  number of slots of \<open>pVect\<close>.
\<close>

fun dense_loop ::
  "(nat \<Rightarrow> nat) \<Rightarrow> nat \<Rightarrow> ('v::plus) SparseVectElem list \<Rightarrow> 'v list \<Rightarrow> fault + 'v list" where
  "dense_loop indexHash nElem [] pVect = Inr pVect"
| "dense_loop indexHash nElem (e # target) pVect =
     (if nElem = 0 then Inl DivisionByZero
      else
        let idx = indexHash (unat (id_of e)) mod nElem in
        dense_loop indexHash nElem target (pVect[idx := pVect ! idx + val_of e]))"

text \<open>\<^verbatim>\<open>fill(pVect, pVect + nElem, 0)\<close>, then the loop.\<close>

definition CreateDenseVectFromObj ::
  "(nat \<Rightarrow> nat) \<Rightarrow> ('v::{zero,plus}) SparseVectElem list \<Rightarrow> nat \<Rightarrow> fault + 'v list" where
  "CreateDenseVectFromObj indexHash target nElem =
     dense_loop indexHash nElem target (replicate nElem 0)"

text \<open>The slot of an element, \<^verbatim>\<open>indexHash(e.id_) % nElem\<close>.\<close>

definition slot_of :: "(nat \<Rightarrow> nat) \<Rightarrow> nat \<Rightarrow> 'v SparseVectElem \<Rightarrow> nat" where
  "slot_of indexHash nElem e = indexHash (unat (id_of e)) mod nElem"

subsection \<open>ComputeOverlap with two arguments\<close>

text \<open>
  Modelled from the spec: \<^verbatim>\<open>IntersectSizeScalarFast\<close> is defined outside the source
  file. The spec: both inputs sorted ascending with unique ids; a linear merge scan that
  advances the pointer with the smaller current id and counts the matches. The pointer
  and length of each argument are one list.
\<close>

fun IntersectSizeScalarFast :: "('i::linorder) list \<Rightarrow> 'i list \<Rightarrow> nat" where
  "IntersectSizeScalarFast [] B = 0"
| "IntersectSizeScalarFast (a # A) [] = 0"
| "IntersectSizeScalarFast (a # A) (b # B) =
     (if a < b then IntersectSizeScalarFast A (b # B)
      else if b < a then IntersectSizeScalarFast (a # A) B
      else IntersectSizeScalarFast A B + 1)"

text \<open>
  The two loops \<^verbatim>\<open>ids.push_back(e.id_)\<close> convert each \<^verbatim>\<open>uint32_t\<close> id to \<^verbatim>\<open>IdType\<close>, a
  typedef from outside the source file: the conversion is the parameter \<open>toIdType\<close>
  (\<open>uint\<close> for a type that holds every 32-bit id, \<open>sint\<close> for a signed 32-bit type).
  \<^verbatim>\<open>&ids1[0]\<close> forms the address of the first id and reads nothing; the ids are passed
  as the list.
\<close>

definition ComputeOverlap ::
  "(32 word \<Rightarrow> 'i::linorder) \<Rightarrow> 'v SparseVectElem list \<Rightarrow> 'v SparseVectElem list \<Rightarrow> nat" where
  "ComputeOverlap toIdType elems1 elems2 =
     (let ids1 = map (\<lambda>e. toIdType (id_of e)) elems1;
          ids2 = map (\<lambda>e. toIdType (id_of e)) elems2
      in IntersectSizeScalarFast ids1 ids2)"

subsection \<open>CreateObjFromVect and CreateVectFromObj\<close>

text \<open>
  The buffers allocated with \<^verbatim>\<open>new char[]\<close> are an explicit store: the heap is the list
  of the buffers allocated so far, and an address is an index into it. A buffer is live,
  with its bytes, or freed. A \<^verbatim>\<open>char*\<close> is \<open>None\<close> for \<^verbatim>\<open>NULL\<close> or \<open>Some\<close> address.
\<close>

type_synonym payload = "8 word list"

type_synonym addr = nat

datatype cell = Live payload | Freed

type_synonym heap = "cell list"

text \<open>A call ends with a value, with an exception thrown, or in undefined behaviour.\<close>

datatype 'x failure = Thrown 'x | Undefined fault

text \<open>
  Modelled from the spec: \<^verbatim>\<open>class Object\<close> is declared outside the source file. The spec's
  VectorRecord is a container of an id, a label, a byte length and a payload; it is the
  single owner of the buffer handed to it, so the record holds the pointer.
\<close>

record Object =
  obj_id :: int
  obj_label :: int
  datalength :: nat
  data :: "addr option"

text \<open>
  \<^verbatim>\<open>delete [] pData\<close>: nothing for \<^verbatim>\<open>NULL\<close>; a live buffer becomes freed; anything else
  (a buffer freed before, an address never allocated) is a fault.
\<close>

definition delete_array :: "addr option \<Rightarrow> heap \<Rightarrow> fault + heap" where
  "delete_array pData h =
     (case pData of
        None \<Rightarrow> Inr h
      | Some p \<Rightarrow>
          if p < length h then
            (case h ! p of Live bytes \<Rightarrow> Inr (h[p := Freed]) | Freed \<Rightarrow> Inl InvalidDelete)
          else Inl InvalidDelete)"

text \<open>The handler \<^verbatim>\<open>catch (...) { delete [] pData; throw; }\<close> on the exception \<open>x\<close>.\<close>

definition handler :: "addr option \<Rightarrow> 'x \<Rightarrow> heap \<Rightarrow> ('x failure + Object) \<times> heap" where
  "handler pData x h =
     (case delete_array pData h of
        Inl f \<Rightarrow> (Inl (Undefined f), h)
      | Inr h' \<Rightarrow> (Inl (Thrown x), h'))"

text \<open>
  \<^verbatim>\<open>PackSparseElements\<close> and the constructor of \<^verbatim>\<open>Object\<close> are the parameters \<open>pack\<close> and
  \<open>new_obj\<close>. \<open>pack\<close> receives the vector, the initial \<^verbatim>\<open>pData = NULL\<close> and \<^verbatim>\<open>dataLen = 0\<close>
  and the heap; it yields the exception it throws, if any, the values of the two reference
  arguments when it returns or throws, and the heap it leaves. \<open>new_obj\<close> yields the
  object or the exception of \<^verbatim>\<open>new Object(...)\<close>, and the heap. The handler covers both
  calls of the \<^verbatim>\<open>try\<close> block.
\<close>

definition CreateObjFromVect ::
  "('v SparseVectElem list \<Rightarrow> addr option \<Rightarrow> nat \<Rightarrow> heap \<Rightarrow>
      'x option \<times> addr option \<times> nat \<times> heap) \<Rightarrow>
   (int \<Rightarrow> int \<Rightarrow> nat \<Rightarrow> addr option \<Rightarrow> heap \<Rightarrow> ('x + Object) \<times> heap) \<Rightarrow>
   int \<Rightarrow> int \<Rightarrow> 'v SparseVectElem list \<Rightarrow> heap \<Rightarrow> ('x failure + Object) \<times> heap" where
  "CreateObjFromVect pack new_obj ident label InpVect h =
     (case pack InpVect None 0 h of
        (Some x, pData, dataLen, h1) \<Rightarrow> handler pData x h1
      | (None, pData, dataLen, h1) \<Rightarrow>
          (case new_obj ident label dataLen pData h1 of
             (Inl x, h2) \<Rightarrow> handler pData x h2
           | (Inr obj, h2) \<Rightarrow> (Inr obj, h2)))"

text \<open>\<^verbatim>\<open>UnpackSparseElements(obj->data(), obj->datalength(), v)\<close>, with the parameter \<open>unpack\<close>.\<close>

definition CreateVectFromObj ::
  "(addr option \<Rightarrow> nat \<Rightarrow> heap \<Rightarrow> 'x failure + 'v SparseVectElem list) \<Rightarrow> Object \<Rightarrow> heap \<Rightarrow>
     'x failure + 'v SparseVectElem list" where
  "CreateVectFromObj unpack obj h = unpack (data obj) (datalength obj) h"

text \<open>
  Modelled from the spec: the constructor of \<^verbatim>\<open>Object\<close>, not in the source file: the
  record takes the id, the label, the length and the pointer handed to it, and the
  ownership of the buffer with the pointer; the heap is as before.
\<close>

definition new_Object ::
  "int \<Rightarrow> int \<Rightarrow> nat \<Rightarrow> addr option \<Rightarrow> heap \<Rightarrow> ('x + Object) \<times> heap" where
  "new_Object ident label dataLen pData h =
     (Inr \<lparr>obj_id = ident, obj_label = label, datalength = dataLen, data = pData\<rparr>, h)"

text \<open>Modelled from the spec: the two errors of the codec in the spec's table of errors.\<close>

datatype codec_error = EncodingError | CorruptEncodingError

subsection \<open>The codec of the spec\<close>

text \<open>
  Modelled from the spec: \<^verbatim>\<open>PackSparseElements\<close> and \<^verbatim>\<open>UnpackSparseElements\<close> are defined
  outside the source file. The spec asks for a layout that holds the element count and,
  for each element in order, its id and its value at a fixed width that depends on the
  value type; the encoder yields a buffer of exactly the encoded size; the decoder fails
  with \<open>CorruptEncodingError\<close> on a truncated or structurally invalid input, such as a
  declared count that does not fit the bytes. The spec leaves the byte layout open. Here:
  the count in 8 bytes, then for each element the id in 4 bytes and the value in \<open>width\<close>
  bytes, numbers in little-endian order; the bytes of a value are the parameters
  \<open>val_bytes\<close> and \<open>bytes_val\<close>.
\<close>

text \<open>
  Modelled from the spec: a number \<open>n\<close> in \<open>k\<close> bytes and the number that bytes hold; the
  spec fixes no byte order, and the least significant byte comes first here.
\<close>

fun le_bytes :: "nat \<Rightarrow> nat \<Rightarrow> payload" where
  "le_bytes 0 n = []"
| "le_bytes (Suc k) n = word_of_nat (n mod 256) # le_bytes k (n div 256)"

fun le_value :: "payload \<Rightarrow> nat" where
  "le_value [] = 0"
| "le_value (b # bs) = unat b + 256 * le_value bs"

text \<open>
  Modelled from the spec: the operation \<open>Encode\<close> of the codec (the body of
  \<^verbatim>\<open>PackSparseElements\<close>, not in the source file): the list in order, in a buffer of
  exactly the encoded size.
\<close>

definition Encode :: "nat \<Rightarrow> ('v \<Rightarrow> payload) \<Rightarrow> 'v SparseVectElem list \<Rightarrow> payload" where
  "Encode width val_bytes elements =
     le_bytes 8 (length elements)
     @ concat (map (\<lambda>e. le_bytes 4 (unat (id_of e)) @ val_bytes (val_of e)) elements)"

text \<open>
  Modelled from the spec: the operation \<open>Decode\<close> of the codec (the body of
  \<^verbatim>\<open>UnpackSparseElements\<close>, not in the source file): it parses the declared number of
  elements and fails when the declared count and the available bytes disagree.
\<close>

fun decode_elements ::
  "nat \<Rightarrow> (payload \<Rightarrow> 'v) \<Rightarrow> nat \<Rightarrow> payload \<Rightarrow> 'v SparseVectElem list" where
  "decode_elements width bytes_val 0 bs = []"
| "decode_elements width bytes_val (Suc n) bs =
     \<lparr>id_of = word_of_nat (le_value (take 4 bs)), val_of = bytes_val (take width (drop 4 bs))\<rparr>
     # decode_elements width bytes_val n (drop (4 + width) bs)"

definition Decode ::
  "nat \<Rightarrow> (payload \<Rightarrow> 'v) \<Rightarrow> payload \<Rightarrow> nat \<Rightarrow> codec_error + 'v SparseVectElem list" where
  "Decode width bytes_val buffer len =
     (if length buffer < len \<or> len < 8 then Inl CorruptEncodingError
      else
        let n = le_value (take 8 buffer) in
        if 8 + n * (4 + width) \<noteq> len then Inl CorruptEncodingError
        else Inr (decode_elements width bytes_val n (drop 8 buffer)))"

text \<open>
  Modelled from the spec: \<^verbatim>\<open>PackSparseElements(InpVect, pData, dataLen)\<close>, not in the source
  file: it allocates a buffer of the encoded size at the next address, leaves the address
  and the size in the two reference arguments, and does not throw.
\<close>

definition PackSparseElements ::
  "nat \<Rightarrow> ('v \<Rightarrow> payload) \<Rightarrow> 'v SparseVectElem list \<Rightarrow> addr option \<Rightarrow> nat \<Rightarrow> heap \<Rightarrow>
     codec_error option \<times> addr option \<times> nat \<times> heap" where
  "PackSparseElements width val_bytes InpVect pData dataLen h =
     (let buffer = Encode width val_bytes InpVect
      in (None, Some (length h), length buffer, h @ [Live buffer]))"

text \<open>
  Modelled from the spec: \<^verbatim>\<open>UnpackSparseElements(pBuff, dataLen, v)\<close>, not in the source
  file: the decoder applied to the live buffer at the address; a failure of the decoder
  is the exception thrown; a read through \<^verbatim>\<open>NULL\<close> or a pointer to no live buffer is a
  fault.
\<close>

definition UnpackSparseElements ::
  "nat \<Rightarrow> (payload \<Rightarrow> 'v) \<Rightarrow> addr option \<Rightarrow> nat \<Rightarrow> heap \<Rightarrow>
     codec_error failure + 'v SparseVectElem list" where
  "UnpackSparseElements width bytes_val pBuff dataLen h =
     (case pBuff of
        None \<Rightarrow> Inl (Undefined InvalidRead)
      | Some p \<Rightarrow>
          if p < length h then
            (case h ! p of
               Freed \<Rightarrow> Inl (Undefined InvalidRead)
             | Live buffer \<Rightarrow>
                 (case Decode width bytes_val buffer dataLen of
                    Inl e \<Rightarrow> Inl (Thrown e)
                  | Inr v \<Rightarrow> Inr v))
          else Inl (Undefined InvalidRead))"

section \<open>Lemmas on the loops\<close>

declare touches.simps [simp del]

lemma unat_succ_bounded:
  "unat (A::32 word) < n \<Longrightarrow> n < 2 ^ 32 \<Longrightarrow> unat (A + 1) = unat A + 1"
  by (simp add: unat_word_ariths)

lemma norm_loop_size:
  assumes "norm_loop elems A acc = Some r"
  shows "length elems < 2 ^ 32"
proof (rule norm_loop.raw_induct [where P = "\<lambda>elems A acc r. length elems < 2 ^ 32", OF _ assms],
    goal_cases)
  case (1 f elems A acc r)
  show ?case
  proof (cases "unat A < length elems")
    case True
    with 1 show ?thesis by simp
  next
    case False
    have "unat A < 2 ^ 32" using unsigned_less [of A] by simp
    with False show ?thesis by simp
  qed
qed

lemma norm_loop_eq:
  assumes "length elems < 2 ^ 32"
  shows "norm_loop elems A acc
    = Some (foldl (\<lambda>s e. s + val_of e * val_of e) acc (drop (unat A) elems))"
  using assms
proof (induction "length elems - unat A" arbitrary: A acc rule: less_induct)
  case less
  show ?case
  proof (cases "unat A < length elems")
    case True
    then have s: "unat (A + 1) = unat A + 1"
      using less.prems by (rule unat_succ_bounded)
    with True have "length elems - unat (A + 1) < length elems - unat A" by simp
    from less.hyps [OF this less.prems]
    have "norm_loop elems (A + 1) (acc + val_of (elems ! unat A) * val_of (elems ! unat A))
      = Some (foldl (\<lambda>s e. s + val_of e * val_of e)
          (acc + val_of (elems ! unat A) * val_of (elems ! unat A)) (drop (unat A + 1) elems))"
      by (simp add: s)
    moreover have "drop (unat A) elems = elems ! unat A # drop (unat A + 1) elems"
      using True by (simp add: Cons_nth_drop_Suc)
    ultimately show ?thesis
      using True by (subst norm_loop.simps) simp
  next
    case False
    then show ?thesis by (subst norm_loop.simps) simp
  qed
qed

lemma drain_left_eq:
  assumes "length elemsA < 2 ^ 32"
  shows "\<exists>A'. drain_left elemsA A res
    = Some (A', res\<lparr>diff_sum_left_norm :=
         foldl (+) (diff_sum_left_norm res) (map val_of (drop (unat A) elemsA))\<rparr>)"
  using assms
proof (induction "length elemsA - unat A" arbitrary: A res rule: less_induct)
  case less
  show ?case
  proof (cases "unat A < length elemsA")
    case True
    then have s: "unat (A + 1) = unat A + 1"
      using less.prems by (rule unat_succ_bounded)
    with True have "length elemsA - unat (A + 1) < length elemsA - unat A" by simp
    from less.hyps [OF this less.prems, of "res\<lparr>diff_sum_left_norm := diff_sum_left_norm res + val_of (elemsA ! unat A)\<rparr>"]
    obtain A' where "drain_left elemsA (A + 1)
        (res\<lparr>diff_sum_left_norm := diff_sum_left_norm res + val_of (elemsA ! unat A)\<rparr>)
      = Some (A', res\<lparr>diff_sum_left_norm :=
         foldl (+) (diff_sum_left_norm res + val_of (elemsA ! unat A))
           (map val_of (drop (unat A + 1) elemsA))\<rparr>)"
      by (auto simp: s)
    moreover have "drop (unat A) elemsA = elemsA ! unat A # drop (unat A + 1) elemsA"
      using True by (simp add: Cons_nth_drop_Suc)
    ultimately show ?thesis
      using True by (subst drain_left.simps) simp
  next
    case False
    then show ?thesis by (subst drain_left.simps) simp
  qed
qed

lemma drain_right_eq:
  assumes "length elemsB < 2 ^ 32"
  shows "\<exists>B'. drain_right elemsB B res
    = Some (B', res\<lparr>diff_sum_right_norm :=
         last (diff_sum_right_norm res # map val_of (drop (unat B) elemsB))\<rparr>)"
  using assms
proof (induction "length elemsB - unat B" arbitrary: B res rule: less_induct)
  case less
  show ?case
  proof (cases "unat B < length elemsB")
    case True
    then have s: "unat (B + 1) = unat B + 1"
      using less.prems by (rule unat_succ_bounded)
    with True have "length elemsB - unat (B + 1) < length elemsB - unat B" by simp
    from less.hyps [OF this less.prems, of "res\<lparr>diff_sum_right_norm := val_of (elemsB ! unat B)\<rparr>"]
    obtain B' where "drain_right elemsB (B + 1)
        (res\<lparr>diff_sum_right_norm := val_of (elemsB ! unat B)\<rparr>)
      = Some (B', res\<lparr>diff_sum_right_norm :=
         last (val_of (elemsB ! unat B) # map val_of (drop (unat B + 1) elemsB))\<rparr>)"
      by (auto simp: s)
    moreover have "drop (unat B) elemsB = elemsB ! unat B # drop (unat B + 1) elemsB"
      using True by (simp add: Cons_nth_drop_Suc)
    ultimately show ?thesis
      using True by (subst drain_right.simps) simp
  next
    case False
    then show ?thesis by (subst drain_right.simps) simp
  qed
qed


lemma adds_right_tail:
  "diff_left_adds (map (\<lambda>e. DiffRight (val_of e)) ys) = []"
  "overlap_left_adds (map (\<lambda>e. DiffRight (val_of e)) ys) = []"
  "diff_right_writes (map (\<lambda>e. DiffRight (val_of e)) ys) = map val_of ys"
  "overlap_right_writes (map (\<lambda>e. DiffRight (val_of e)) ys) = []"
  by (induction ys) simp_all

lemma adds_tail:
  "diff_left_adds (map (\<lambda>e. DiffLeft (val_of e)) xs @ map (\<lambda>e. DiffRight (val_of e)) ys)
     = map val_of xs"
  "overlap_left_adds (map (\<lambda>e. DiffLeft (val_of e)) xs @ map (\<lambda>e. DiffRight (val_of e)) ys)
     = []"
  "diff_right_writes (map (\<lambda>e. DiffLeft (val_of e)) xs @ map (\<lambda>e. DiffRight (val_of e)) ys)
     = map val_of ys"
  "overlap_right_writes (map (\<lambda>e. DiffLeft (val_of e)) xs @ map (\<lambda>e. DiffRight (val_of e)) ys)
     = []"
  by (induction xs) (simp_all add: adds_right_tail)

lemma merge_loop_run:
  assumes "length elemsA < 2 ^ 32"
  shows "\<exists>r. merge_loop elemsA elemsB A B res = Some r
    \<and> (\<forall>A' B' res'. r = Inr (A', B', res') \<longrightarrow> merge_post elemsA elemsB A B res A' B' res')"
  using assms
proof (induction "(length elemsA - unat A) + (length elemsA - unat B)"
    arbitrary: A B res rule: less_induct)
  case less
  let ?m = "\<lambda>A B. (length elemsA - unat A) + (length elemsA - unat B)"
  show ?case
  proof (cases "unat A < length elemsA \<and> unat B < length elemsA")
    case False
    then have "merge_loop elemsA elemsB A B res = Some (Inr (A, B, res))"
      by (subst merge_loop.simps) auto
    moreover have "touches elemsA elemsB (unat A) (unat B)
      = map (\<lambda>e. DiffLeft (val_of e)) (drop (unat A) elemsA)
        @ map (\<lambda>e. DiffRight (val_of e)) (drop (unat B) elemsB)"
      using False by (subst touches.simps) auto
    ultimately show ?thesis
      by (simp add: merge_post_def adds_tail)
  next
    case True
    have sA: "unat (A + 1) = unat A + 1" and sB: "unat (B + 1) = unat B + 1"
      using True less.prems unat_succ_bounded [of A "length elemsA"]
        unat_succ_bounded [of B "length elemsA"] by simp_all
    show ?thesis
    proof (cases "length elemsB \<le> unat B")
      case True
      with \<open>unat A < length elemsA \<and> unat B < length elemsA\<close>
      have "merge_loop elemsA elemsB A B res = Some (Inl OutOfRange)"
        by (subst merge_loop.simps) simp
      then show ?thesis by simp
    next
      case inB: False
      let ?idA = "id_of (elemsA ! unat A)" and ?idB = "id_of (elemsB ! unat B)"
      let ?a = "val_of (elemsA ! unat A)" and ?b = "val_of (elemsB ! unat B)"
      consider (lt) "?idA < ?idB" | (gt) "\<not> ?idA < ?idB" "?idB < ?idA"
        | (eq) "\<not> ?idA < ?idB" "\<not> ?idB < ?idA"
        by blast
      then show ?thesis
      proof cases
        case lt
        let ?res1 = "res\<lparr>diff_sum_left_norm := diff_sum_left_norm res + ?a\<rparr>"
        have m: "?m (A + 1) B < ?m A B" using True sA by arith
        from less.hyps [OF m less.prems, of ?res1]
        obtain r where r: "merge_loop elemsA elemsB (A + 1) B ?res1 = Some r"
          and post: "\<And>A' B' res'. r = Inr (A', B', res')
            \<Longrightarrow> merge_post elemsA elemsB (A + 1) B ?res1 A' B' res'"
          by blast
        have loop: "merge_loop elemsA elemsB A B res = Some r"
          using True inB lt r by (subst merge_loop.simps) (simp add: Let_def)
        have tr: "touches elemsA elemsB (unat A) (unat B)
          = DiffLeft ?a # touches elemsA elemsB (unat A + 1) (unat B)"
          using True inB lt by (subst touches.simps) simp
        have "merge_post elemsA elemsB A B res A' B' res'" if "r = Inr (A', B', res')"
          for A' B' res'
          using post [OF that] True by (simp add: merge_post_def tr sA)
        with loop show ?thesis by blast
      next
        case gt
        let ?res1 = "res\<lparr>diff_sum_right_norm := ?b\<rparr>"
        have m: "?m A (B + 1) < ?m A B" using True sB by arith
        from less.hyps [OF m less.prems, of ?res1]
        obtain r where r: "merge_loop elemsA elemsB A (B + 1) ?res1 = Some r"
          and post: "\<And>A' B' res'. r = Inr (A', B', res')
            \<Longrightarrow> merge_post elemsA elemsB A (B + 1) ?res1 A' B' res'"
          by blast
        have loop: "merge_loop elemsA elemsB A B res = Some r"
          using True inB gt r by (subst merge_loop.simps) (simp add: Let_def)
        have tr: "touches elemsA elemsB (unat A) (unat B)
          = DiffRight ?b # touches elemsA elemsB (unat A) (unat B + 1)"
          using True inB gt by (subst touches.simps) simp
        have "merge_post elemsA elemsB A B res A' B' res'" if "r = Inr (A', B', res')"
          for A' B' res'
          using post [OF that] True by (simp add: merge_post_def tr sB)
        with loop show ?thesis by blast
      next
        case eq
        let ?res1 = "res\<lparr>overlap_dotprod_norm := overlap_dotprod_norm res + ?a * ?b,
          overlap_sum_left_norm := overlap_sum_left_norm res + ?a,
          overlap_sum_right_norm := ?b,
          overlap_qty := overlap_qty res + 1\<rparr>"
        have m: "?m (A + 1) (B + 1) < ?m A B" using True sA sB by arith
        from less.hyps [OF m less.prems, of ?res1]
        obtain r where r: "merge_loop elemsA elemsB (A + 1) (B + 1) ?res1 = Some r"
          and post: "\<And>A' B' res'. r = Inr (A', B', res')
            \<Longrightarrow> merge_post elemsA elemsB (A + 1) (B + 1) ?res1 A' B' res'"
          by blast
        have loop: "merge_loop elemsA elemsB A B res = Some r"
          using True inB eq r by (subst merge_loop.simps) (simp add: Let_def)
        have tr: "touches elemsA elemsB (unat A) (unat B)
          = Match ?a ?b # touches elemsA elemsB (unat A + 1) (unat B + 1)"
          using True inB eq by (subst touches.simps) simp
        have "merge_post elemsA elemsB A B res A' B' res'" if "r = Inr (A', B', res')"
          for A' B' res'
          using post [OF that] True by (simp add: merge_post_def tr sA sB)
        with loop show ?thesis by blast
      qed
    qed
  qed
qed

lemma merge_loop_fault:
  assumes "merge_loop elemsA elemsB A B res = Some (Inl f)"
  shows "f = OutOfRange \<and> length elemsB < length elemsA"
proof -
  have "\<forall>f. Inl f = r \<longrightarrow> f = OutOfRange \<and> length elemsB < length elemsA"
    if "merge_loop elemsA elemsB A B res = Some r" for r
  proof (rule merge_loop.raw_induct [where P = "\<lambda>elemsA elemsB A B res r.
      \<forall>f. Inl f = r \<longrightarrow> f = OutOfRange \<and> length elemsB < length elemsA", OF _ that], goal_cases)
    case (1 loop elemsA elemsB A B res r)
    then show ?case
      by (auto simp: Let_def split: if_splits)
  qed
  with assms show ?thesis by blast
qed

lemma overlap_scan_run:
  fixes elemsA elemsB :: "('v::{zero,plus,times}) SparseVectElem list"
  assumes "length elemsA < 2 ^ 32" and "length elemsB < 2 ^ 32"
  shows "\<exists>r. overlap_scan elemsA elemsB = Some r
    \<and> (\<forall>res. r = Inr res \<longrightarrow>
         diff_sum_left_norm res = foldl (+) 0 (diff_left_adds (touches elemsA elemsB 0 0))
       \<and> overlap_sum_left_norm res = foldl (+) 0 (overlap_left_adds (touches elemsA elemsB 0 0))
       \<and> diff_sum_right_norm res = last (0 # diff_right_writes (touches elemsA elemsB 0 0))
       \<and> overlap_sum_right_norm res
           = last (0 # overlap_right_writes (touches elemsA elemsB 0 0))
       \<and> overlap_qty res \<le> length elemsA)"
proof -
  let ?init = "OverlapInfo_init :: 'v OverlapInfo"
  from merge_loop_run [OF assms(1), of elemsB 0 0 ?init]
  obtain r where r: "merge_loop elemsA elemsB 0 0 ?init = Some r"
    and post: "\<And>A' B' res'. r = Inr (A', B', res')
      \<Longrightarrow> merge_post elemsA elemsB 0 0 ?init A' B' res'"
    by blast
  show ?thesis
  proof (cases r)
    case (Inl f)
    with r show ?thesis by (simp add: overlap_scan_def)
  next
    case (Inr s)
    then obtain A' B' res' where s: "r = Inr (A', B', res')" by (cases s) auto
    from drain_left_eq [OF assms(1), of A' res']
    obtain A'' where dl: "drain_left elemsA A' res' = Some (A'', res'\<lparr>diff_sum_left_norm :=
         foldl (+) (diff_sum_left_norm res') (map val_of (drop (unat A') elemsA))\<rparr>)"
      by blast
    let ?res2 = "res'\<lparr>diff_sum_left_norm :=
         foldl (+) (diff_sum_left_norm res') (map val_of (drop (unat A') elemsA))\<rparr>"
    from drain_right_eq [OF assms(2), of B' ?res2]
    obtain B'' where dr: "drain_right elemsB B' ?res2 = Some (B'', ?res2\<lparr>diff_sum_right_norm :=
         last (diff_sum_right_norm ?res2 # map val_of (drop (unat B') elemsB))\<rparr>)"
      by blast
    have scan: "overlap_scan elemsA elemsB = Some (Inr (?res2\<lparr>diff_sum_right_norm :=
         last (diff_sum_right_norm ?res2 # map val_of (drop (unat B') elemsB))\<rparr>))"
      using r s dl dr by (simp add: overlap_scan_def)
    from post [OF s] show ?thesis
      unfolding scan by (simp add: merge_post_def OverlapInfo_init_def)
  qed
qed

lemma ComputeOverlapInfo_sizes:
  assumes "ComputeOverlapInfo fsqrt elemsA elemsB = Some r"
  shows "length elemsA < 2 ^ 32" and "length elemsB < 2 ^ 32"
  using assms norm_loop_size [of elemsA 0 0] norm_loop_size [of elemsB 0 0]
  by (auto simp: ComputeOverlapInfo_def split: option.splits)

lemma ComputeOverlapInfo_eq:
  assumes "length elemsA < 2 ^ 32" and "length elemsB < 2 ^ 32"
  shows "ComputeOverlapInfo fsqrt elemsA elemsB =
    (case overlap_scan elemsA elemsB of
       None \<Rightarrow> None
     | Some (Inl f) \<Rightarrow> Some (Inl f)
     | Some (Inr res) \<Rightarrow> Some (normalize (fsqrt (sum_sq elemsA)) (fsqrt (sum_sq elemsB)) res))"
proof -
  have "norm_loop elemsA 0 0 = Some (sum_sq elemsA)" and "norm_loop elemsB 0 0 = Some (sum_sq elemsB)"
    by (simp_all add: norm_loop_eq [OF assms(1)] norm_loop_eq [OF assms(2)] sum_sq_def)
  then show ?thesis by (simp add: ComputeOverlapInfo_def)
qed

lemma normalize_Inr:
  assumes "normalize nl nr raw = Inr res"
  shows "overlap_qty res = overlap_qty raw"
    and "overlap_sum_left_norm res = scaled nl (overlap_sum_left_norm raw)"
    and "diff_sum_left_norm res = scaled nl (diff_sum_left_norm raw)"
    and "overlap_sum_right_norm res = scaled nr (overlap_sum_right_norm raw)"
    and "diff_sum_right_norm res = scaled nr (diff_sum_right_norm raw)"
    and "overlap_dotprod_norm res = scaled nr (scaled nl (overlap_dotprod_norm raw))"
  using assms
  by (auto simp: normalize_def normalize_left_def normalize_right_def checked_div_def scaled_def
      split: if_splits sum.splits)

lemma normalize_no_fault:
  fixes nl nr :: "'v::{zero,one,times,inverse,preorder}"
  shows "\<exists>res. normalize nl nr raw = Inr res"
  by (auto simp: normalize_def normalize_left_def normalize_right_def checked_div_def
      split: if_splits sum.splits)

text \<open>
  When the sizes fit the 32-bit cursors and the right vector is at least as long as the
  left one, ComputeOverlapInfo returns a record.
\<close>

lemma ComputeOverlapInfo_returns:
  fixes elemsA elemsB :: "('v::{zero,one,plus,times,inverse,preorder}) SparseVectElem list"
  assumes "length elemsA < 2 ^ 32" and "length elemsB < 2 ^ 32"
    and "length elemsA \<le> length elemsB"
  shows "\<exists>res. ComputeOverlapInfo fsqrt elemsA elemsB = Some (Inr res)"
proof -
  from overlap_scan_run [OF assms(1,2)]
  obtain r where r: "overlap_scan elemsA elemsB = Some r" by blast
  have "\<exists>raw. r = Inr raw"
  proof (cases r)
    case (Inl f)
    with r have "merge_loop elemsA elemsB 0 0 OverlapInfo_init = Some (Inl f)"
      by (auto simp: overlap_scan_def split: option.splits sum.splits)
    with merge_loop_fault assms(3) show ?thesis by fastforce
  next
    case (Inr raw)
    then show ?thesis by blast
  qed
  then obtain raw where raw: "r = Inr raw" by blast
  from normalize_no_fault [of "fsqrt (sum_sq elemsA)" "fsqrt (sum_sq elemsB)" raw] r raw
  show ?thesis
    by (auto simp: ComputeOverlapInfo_eq [OF assms(1,2)])
qed





lemma sqrt_25: "sqrt 25 = 5"
  using real_sqrt_abs [of 5] by simp

section \<open>Lemmas on the intersection count, the projection and the codec\<close>

text \<open>On strictly ascending lists the merge scan counts the common ids.\<close>

lemma IntersectSizeScalarFast_card:
  "sorted_wrt (<) A \<Longrightarrow> sorted_wrt (<) B \<Longrightarrow>
     IntersectSizeScalarFast A B = card (set A \<inter> set B)"
proof (induction A B rule: IntersectSizeScalarFast.induct)
  case (1 B)
  then show ?case by simp
next
  case (2 a A)
  then show ?case by simp
next
  case (3 a A b B)
  from "3.prems" have sA: "sorted_wrt (<) A" and sB: "sorted_wrt (<) B"
    and aA: "\<forall>x\<in>set A. a < x" and bB: "\<forall>x\<in>set B. b < x"
    by simp_all
  consider (lt) "a < b" | (gt) "\<not> a < b" "b < a" | (eq) "a = b"
    by (cases a b rule: linorder_cases) auto
  then show ?case
  proof cases
    case lt
    with bB have "a \<notin> set (b # B)" by auto
    then have "set (a # A) \<inter> set (b # B) = set A \<inter> set (b # B)" by auto
    with lt "3.IH"(1) [OF lt sA "3.prems"(2)] show ?thesis by simp
  next
    case gt
    with aA have "b \<notin> set (a # A)" by auto
    then have "set (a # A) \<inter> set (b # B) = set (a # A) \<inter> set B" by auto
    with gt "3.IH"(2) [OF gt "3.prems"(1) sB] show ?thesis by simp
  next
    case eq
    with aA bB have "a \<notin> set A" and "a \<notin> set B" by auto
    then have "set (a # A) \<inter> set (b # B) = insert a (set A \<inter> set B)"
      and "a \<notin> set A \<inter> set B"
      using eq by auto
    moreover have "IntersectSizeScalarFast A B = card (set A \<inter> set B)"
      using "3.IH"(3) sA sB eq by simp
    ultimately show ?thesis using eq by simp
  qed
qed

lemma dense_loop_slots:
  assumes "0 < nElem" and "length pVect = nElem"
  shows "\<exists>q. dense_loop indexHash nElem target pVect = Inr q \<and> length q = nElem
    \<and> (\<forall>j<nElem. q ! j
         = foldl (+) (pVect ! j) (map val_of (filter (\<lambda>e. slot_of indexHash nElem e = j) target)))"
  using assms
proof (induction target arbitrary: pVect)
  case Nil
  then show ?case by simp
next
  case (Cons e target)
  let ?idx = "indexHash (unat (id_of e)) mod nElem"
  let ?p = "pVect[?idx := pVect ! ?idx + val_of e]"
  have idx: "?idx < nElem" using Cons.prems(1) by simp
  have len: "length ?p = nElem" using Cons.prems(2) by simp
  from Cons.IH [OF Cons.prems(1) len]
  obtain q where q: "dense_loop indexHash nElem target ?p = Inr q" "length q = nElem"
    and slots: "\<And>j. j < nElem \<Longrightarrow> q ! j
      = foldl (+) (?p ! j) (map val_of (filter (\<lambda>e. slot_of indexHash nElem e = j) target))"
    by blast
  have "q ! j = foldl (+) (pVect ! j)
      (map val_of (filter (\<lambda>e. slot_of indexHash nElem e = j) (e # target)))"
    if "j < nElem" for j
    using slots [OF that] that Cons.prems(2) by (auto simp: slot_of_def)
  with q Cons.prems(1) show ?case by (simp add: Let_def)
qed

lemma length_le_bytes: "length (le_bytes k n) = k"
  by (induction k arbitrary: n) simp_all

lemma le_value_le_bytes: "n < 256 ^ k \<Longrightarrow> le_value (le_bytes k n) = n"
proof (induction k arbitrary: n)
  case 0
  then show ?case by simp
next
  case (Suc k)
  then have "n div 256 < 256 ^ k"
    by (simp add: less_mult_imp_div_less mult.commute)
  with Suc.IH have "le_value (le_bytes k (n div 256)) = n div 256" by simp
  moreover have "unat (word_of_nat (n mod 256) :: 8 word) = n mod 256"
    by (simp add: unat_of_nat)
  ultimately show ?case by simp
qed

lemma id_bytes_roundtrip:
  "word_of_nat (le_value (le_bytes 4 (unat (x::32 word)))) = x"
proof -
  have "unat x < 256 ^ 4" using unsigned_less [of x] by simp
  then show ?thesis by (simp add: le_value_le_bytes)
qed

lemma decode_elements_encode:
  assumes "\<And>x. length (val_bytes x) = width" and "\<And>x. bytes_val (val_bytes x) = x"
  shows "decode_elements width bytes_val (length elements)
      (concat (map (\<lambda>e. le_bytes 4 (unat (id_of e)) @ val_bytes (val_of e)) elements) @ rest)
    = elements"
proof (induction elements)
  case Nil
  then show ?case by simp
next
  case (Cons e elements)
  have "take 4 (le_bytes 4 (unat (id_of e)) @ ys) = le_bytes 4 (unat (id_of e))" for ys
    by (simp add: length_le_bytes)
  moreover have "drop 4 (le_bytes 4 (unat (id_of e)) @ ys) = ys" for ys
    by (simp add: length_le_bytes)
  ultimately show ?case
    using Cons.IH id_bytes_roundtrip [of "id_of e"]
    by (simp add: assms length_le_bytes)
qed

lemma length_encode_body:
  assumes "\<And>x. length (val_bytes x) = width"
  shows "length (concat (map (\<lambda>e. le_bytes 4 (unat (id_of e)) @ val_bytes (val_of e)) elements))
    = length elements * (4 + width)"
  by (induction elements) (simp_all add: assms length_le_bytes)

lemma sorted_unique_length:
  assumes "sorted_unique elements"
  shows "length elements \<le> 2 ^ 32"
proof -
  from assms have "distinct (map id_of elements)"
    by (simp add: sorted_unique_def strict_sorted_iff)
  then have "length (map id_of elements) = card (set (map id_of elements))"
    using distinct_card [of "map id_of elements"] by simp
  also have "\<dots> \<le> card (UNIV :: 32 word set)"
    by (rule card_mono) simp_all
  finally show ?thesis by (simp add: card_word)
qed

lemma Decode_Encode:
  assumes "\<And>x. length (val_bytes x) = width" and "\<And>x. bytes_val (val_bytes x) = x"
    and "length elements < 2 ^ 64"
  shows "Decode width bytes_val (Encode width val_bytes elements)
      (length (Encode width val_bytes elements)) = Inr elements"
proof -
  let ?body = "concat (map (\<lambda>e. le_bytes 4 (unat (id_of e)) @ val_bytes (val_of e)) elements)"
  have "length ?body = length elements * (4 + width)"
    using assms(1) by (rule length_encode_body)
  then have len: "length (Encode width val_bytes elements) = 8 + length elements * (4 + width)"
    by (simp add: Encode_def length_le_bytes)
  have "length elements < 256 ^ 8" using assms(3) by simp
  then have cnt: "le_value (take 8 (Encode width val_bytes elements)) = length elements"
    by (simp add: Encode_def length_le_bytes le_value_le_bytes)
  have body: "drop 8 (Encode width val_bytes elements) = ?body"
    by (simp add: Encode_def length_le_bytes)
  from decode_elements_encode [OF assms(1,2), of elements "[]"]
  have "decode_elements width bytes_val (length elements) ?body = elements" by simp
  with len cnt body show ?thesis
    by (simp add: Decode_def Let_def)
qed

section \<open>Theorems\<close>

subsection \<open>The merge loop ends on the size of the left vector\<close>

text \<open>
  C1. The claim: the merge loop of ComputeOverlapInfo ends only when the left cursor has
  reached the size of the left vector or the right cursor the size of the right vector.
  The source compares both cursors with the size of the left vector. On the left vector
  \<open>[(5, 1)]\<close> and the right vector \<open>[(1, 3), (5, 4)]\<close> the loop ends after one step with
  the left cursor at 0, below the left size 1, and the right cursor at 1, below the right
  size 2; the common id 5 is never compared, the count of the scan is 0, and both weights
  of id 5 land in the difference sums.
\<close>

theorem merge_loop_stops_on_left_size:
  "merge_loop [\<lparr>id_of = 5, val_of = 1::real\<rparr>]
       [\<lparr>id_of = 1, val_of = 3\<rparr>, \<lparr>id_of = 5, val_of = 4\<rparr>] 0 0 OverlapInfo_init
     = Some (Inr (0, 1, OverlapInfo_init\<lparr>diff_sum_right_norm := 3\<rparr>))
   \<and> unat (0::32 word) < length [\<lparr>id_of = 5, val_of = 1::real\<rparr>]
   \<and> unat (1::32 word) < length [\<lparr>id_of = 1, val_of = 3::real\<rparr>, \<lparr>id_of = 5, val_of = 4\<rparr>]
   \<and> overlap_scan [\<lparr>id_of = 5, val_of = 1::real\<rparr>]
       [\<lparr>id_of = 1, val_of = 3\<rparr>, \<lparr>id_of = 5, val_of = 4\<rparr>]
     = Some (Inr (OverlapInfo_init\<lparr>diff_sum_left_norm := 1, diff_sum_right_norm := 4\<rparr>))"
  by (simp add: overlap_scan_def merge_loop.simps drain_left.simps drain_right.simps
      OverlapInfo_init_def)

subsection \<open>Left sums accumulate, right sums keep the last value written\<close>



subsection \<open>The read of the right vector in the merge loop\<close>

text \<open>
  C3. There are sorted vectors with unique ids, the right one strictly shorter than the
  left one, on which the merge loop reads \<^verbatim>\<open>elemsB[B]\<close> with \<open>B\<close> at or beyond the size of
  \<^verbatim>\<open>elemsB\<close>, because the loop condition bounds \<open>B\<close> by the size of \<^verbatim>\<open>elemsA\<close>. When the
  right vector is at least as long as the left one, no read of the loop is out of range,
  from any cursors, and the loop returns when the left size fits the 32-bit cursors.
\<close>

theorem merge_loop_reads_right_vector_out_of_range:
  "(\<exists>elemsA elemsB :: ('v::{zero,one,plus,times}) SparseVectElem list.
       sorted_unique elemsA \<and> sorted_unique elemsB \<and> length elemsB < length elemsA
     \<and> merge_loop elemsA elemsB 0 0 OverlapInfo_init = Some (Inl OutOfRange))
   \<and> (\<forall>(elemsA :: 'v SparseVectElem list) elemsB A B res f.
        length elemsA \<le> length elemsB \<longrightarrow> merge_loop elemsA elemsB A B res \<noteq> Some (Inl f))
   \<and> (\<forall>(elemsA :: 'v SparseVectElem list) elemsB A B res.
        length elemsA \<le> length elemsB \<longrightarrow> length elemsA < 2 ^ 32 \<longrightarrow>
          (\<exists>A' B' res'. merge_loop elemsA elemsB A B res = Some (Inr (A', B', res'))))"
proof (intro conjI allI impI)
  let ?A = "[\<lparr>id_of = 5, val_of = 1::'v\<rparr>, \<lparr>id_of = 6, val_of = 1\<rparr>]"
  let ?B = "[\<lparr>id_of = 1, val_of = 1::'v\<rparr>]"
  have "merge_loop ?A ?B 0 0 OverlapInfo_init = Some (Inl OutOfRange)"
    by (simp add: merge_loop.simps)
  moreover have "sorted_unique ?A" and "sorted_unique ?B" and "length ?B < length ?A"
    by (simp_all add: sorted_unique_def)
  ultimately show "\<exists>elemsA elemsB :: 'v SparseVectElem list.
       sorted_unique elemsA \<and> sorted_unique elemsB \<and> length elemsB < length elemsA
     \<and> merge_loop elemsA elemsB 0 0 OverlapInfo_init = Some (Inl OutOfRange)"
    by blast
next
  fix elemsA elemsB :: "'v SparseVectElem list" and A B res f
  assume le: "length elemsA \<le> length elemsB"
  show "merge_loop elemsA elemsB A B res \<noteq> Some (Inl f)"
    using merge_loop_fault [of elemsA elemsB A B res f] le by auto
next
  fix elemsA elemsB :: "'v SparseVectElem list" and A B res
  assume le: "length elemsA \<le> length elemsB" and sz: "length elemsA < 2 ^ 32"
  from merge_loop_run [OF sz, of elemsB A B res]
  obtain r where r: "merge_loop elemsA elemsB A B res = Some r" by blast
  show "\<exists>A' B' res'. merge_loop elemsA elemsB A B res = Some (Inr (A', B', res'))"
  proof (cases r)
    case (Inl f)
    with r merge_loop_fault [of elemsA elemsB A B res f] le show ?thesis by auto
  next
    case (Inr s)
    with r show ?thesis by (cases s) auto
  qed
qed

theorem merge_loop_reads_right_vector_out_of_range_witness:
  "length [\<lparr>id_of = 1, val_of = 1::real\<rparr>]
     \<le> length [\<lparr>id_of = 1, val_of = 3::real\<rparr>, \<lparr>id_of = 5, val_of = 4\<rparr>]
   \<and> length [\<lparr>id_of = 1, val_of = 1::real\<rparr>] < 2 ^ 32
   \<and> merge_loop [\<lparr>id_of = 1, val_of = 1::real\<rparr>]
        [\<lparr>id_of = 1, val_of = 3\<rparr>, \<lparr>id_of = 5, val_of = 4\<rparr>] 0 0 OverlapInfo_init
      \<noteq> Some (Inl OutOfRange)
   \<and> (\<exists>A' B' res'. merge_loop [\<lparr>id_of = 1, val_of = 1::real\<rparr>]
        [\<lparr>id_of = 1, val_of = 3\<rparr>, \<lparr>id_of = 5, val_of = 4\<rparr>] 0 0 OverlapInfo_init
      = Some (Inr (A', B', res')))"
proof -
  let ?A = "[\<lparr>id_of = 1, val_of = 1::real\<rparr>]"
  let ?B = "[\<lparr>id_of = 1, val_of = 3::real\<rparr>, \<lparr>id_of = 5, val_of = 4\<rparr>]"
  have le: "length ?A \<le> length ?B" and sz: "length ?A < 2 ^ 32" by simp_all
  note inst = merge_loop_reads_right_vector_out_of_range [where 'v = real]
  from inst have "merge_loop ?A ?B 0 0 OverlapInfo_init \<noteq> Some (Inl OutOfRange)"
    using le by blast
  moreover from inst
  have "\<exists>A' B' res'. merge_loop ?A ?B 0 0 OverlapInfo_init = Some (Inr (A', B', res'))"
    using le sz by blast
  ultimately show ?thesis using le sz by blast
qed

subsection \<open>Disjoint ids\<close>

text \<open>
  C4. The claim: for ids \<open>{1, 2}\<close> against ids \<open>{3, 4}\<close> the count is 0 and, before
  normalisation, each difference sum is the sum of the weights of its vector. On the
  weights \<open>1, 2\<close> against \<open>1, 2\<close> the loops leave the count 0 and the left difference sum
  \<open>1 + 2\<close>, but the right difference sum 2: the last weight of the right vector, since
  \<^verbatim>\<open>res.diff_sum_right_norm_ = elemsB[B].val_\<close> assigns where the left loop adds.
\<close>

theorem disjoint_right_diff_sum_is_last_weight:
  "overlap_scan [\<lparr>id_of = 1, val_of = 1::real\<rparr>, \<lparr>id_of = 2, val_of = 2\<rparr>]
       [\<lparr>id_of = 3, val_of = 1\<rparr>, \<lparr>id_of = 4, val_of = 2\<rparr>]
     = Some (Inr \<lparr>overlap_qty = 0, overlap_dotprod_norm = 0, overlap_sum_left_norm = 0,
          overlap_sum_right_norm = 0, diff_sum_left_norm = 1 + 2, diff_sum_right_norm = 2\<rparr>)
   \<and> (2::real) \<noteq> 1 + 2"
  by (simp add: overlap_scan_def merge_loop.simps drain_left.simps drain_right.simps
      OverlapInfo_init_def)

subsection \<open>Normalisation\<close>

text \<open>
  C6. ComputeOverlapInfo never divides by zero. When it returns a record, each left field
  is the value the loops left scaled by the left norm, each right field the value scaled
  by the right norm, and the dot product is scaled by both, where \<open>scaled n x\<close> is
  \<open>x * (1 / n)\<close> (in a field, \<open>x / n\<close>) when \<open>0 < n\<close> and \<open>x\<close> itself otherwise; for the norm
  0 the step is skipped and the value is kept. The norms are \<open>fsqrt\<close> of the sums of squares.
\<close>

theorem normalisation_skipped_unless_norm_positive:
  fixes elemsA elemsB :: "('v::{zero,one,plus,times,inverse,preorder}) SparseVectElem list"
  shows "ComputeOverlapInfo fsqrt elemsA elemsB \<noteq> Some (Inl DivisionByZero)
    \<and> (\<forall>res. ComputeOverlapInfo fsqrt elemsA elemsB = Some (Inr res) \<longrightarrow>
         (\<exists>raw. overlap_scan elemsA elemsB = Some (Inr raw)
          \<and> overlap_sum_left_norm res
              = scaled (fsqrt (sum_sq elemsA)) (overlap_sum_left_norm raw)
          \<and> diff_sum_left_norm res = scaled (fsqrt (sum_sq elemsA)) (diff_sum_left_norm raw)
          \<and> overlap_sum_right_norm res
              = scaled (fsqrt (sum_sq elemsB)) (overlap_sum_right_norm raw)
          \<and> diff_sum_right_norm res = scaled (fsqrt (sum_sq elemsB)) (diff_sum_right_norm raw)
          \<and> overlap_dotprod_norm res
              = scaled (fsqrt (sum_sq elemsB))
                  (scaled (fsqrt (sum_sq elemsA)) (overlap_dotprod_norm raw))))
    \<and> (\<forall>x::'v. scaled 0 x = x)"
proof (intro conjI allI impI)
  show "ComputeOverlapInfo fsqrt elemsA elemsB \<noteq> Some (Inl DivisionByZero)"
  proof
    assume run: "ComputeOverlapInfo fsqrt elemsA elemsB = Some (Inl DivisionByZero)"
    have sizes: "length elemsA < 2 ^ 32" "length elemsB < 2 ^ 32"
      using ComputeOverlapInfo_sizes [OF run] by simp_all
    let ?nl = "fsqrt (sum_sq elemsA)" and ?nr = "fsqrt (sum_sq elemsB)"
    from run obtain s where s: "overlap_scan elemsA elemsB = Some s"
      by (auto simp: ComputeOverlapInfo_eq [OF sizes] split: option.splits)
    show False
    proof (cases s)
      case (Inl f)
      with s have "merge_loop elemsA elemsB 0 0 OverlapInfo_init = Some (Inl f)"
        by (auto simp: overlap_scan_def split: option.splits sum.splits)
      then have "f = OutOfRange" using merge_loop_fault by blast
      with Inl s run show False
        by (simp add: ComputeOverlapInfo_eq [OF sizes])
    next
      case (Inr raw)
      with s run have "normalize ?nl ?nr raw = Inl DivisionByZero"
        by (simp add: ComputeOverlapInfo_eq [OF sizes])
      with normalize_no_fault [of ?nl ?nr raw] show False by auto
    qed
  qed
next
  fix res
  assume run: "ComputeOverlapInfo fsqrt elemsA elemsB = Some (Inr res)"
  have sizes: "length elemsA < 2 ^ 32" "length elemsB < 2 ^ 32"
    using ComputeOverlapInfo_sizes [OF run] by simp_all
  from run obtain raw where raw: "overlap_scan elemsA elemsB = Some (Inr raw)"
    and n: "normalize (fsqrt (sum_sq elemsA)) (fsqrt (sum_sq elemsB)) raw = Inr res"
    by (auto simp: ComputeOverlapInfo_eq [OF sizes] split: option.splits sum.splits)
  from normalize_Inr [OF n] raw
  show "\<exists>raw. overlap_scan elemsA elemsB = Some (Inr raw)
          \<and> overlap_sum_left_norm res
              = scaled (fsqrt (sum_sq elemsA)) (overlap_sum_left_norm raw)
          \<and> diff_sum_left_norm res = scaled (fsqrt (sum_sq elemsA)) (diff_sum_left_norm raw)
          \<and> overlap_sum_right_norm res
              = scaled (fsqrt (sum_sq elemsB)) (overlap_sum_right_norm raw)
          \<and> diff_sum_right_norm res = scaled (fsqrt (sum_sq elemsB)) (diff_sum_right_norm raw)
          \<and> overlap_dotprod_norm res
              = scaled (fsqrt (sum_sq elemsB))
                  (scaled (fsqrt (sum_sq elemsA)) (overlap_dotprod_norm raw))"
    by simp
next
  fix x :: 'v
  show "scaled 0 x = x" by (simp add: scaled_def)
qed

theorem normalisation_skipped_unless_norm_positive_witness:
  "ComputeOverlapInfo sqrt [\<lparr>id_of = 1, val_of = 0::real\<rparr>]
       [\<lparr>id_of = 1, val_of = 3\<rparr>, \<lparr>id_of = 2, val_of = 4\<rparr>]
     = Some (Inr \<lparr>overlap_qty = 1, overlap_dotprod_norm = 0, overlap_sum_left_norm = 0,
          overlap_sum_right_norm = 3 / 5, diff_sum_left_norm = 0, diff_sum_right_norm = 4 / 5\<rparr>)
   \<and> sqrt (sum_sq [\<lparr>id_of = 1, val_of = 0::real\<rparr>]) = 0
   \<and> sqrt (sum_sq [\<lparr>id_of = 1, val_of = 3::real\<rparr>, \<lparr>id_of = 2, val_of = 4\<rparr>]) = 5
   \<and> (\<exists>raw. overlap_scan [\<lparr>id_of = 1, val_of = 0::real\<rparr>]
         [\<lparr>id_of = 1, val_of = 3\<rparr>, \<lparr>id_of = 2, val_of = 4\<rparr>] = Some (Inr raw)
       \<and> overlap_sum_left_norm raw = 0 \<and> diff_sum_left_norm raw = 0
       \<and> 3 / 5 = overlap_sum_right_norm raw * (1 / 5)
       \<and> 4 / 5 = diff_sum_right_norm raw * (1 / 5))"
proof -
  let ?A = "[\<lparr>id_of = 1, val_of = 0::real\<rparr>]"
  let ?B = "[\<lparr>id_of = 1, val_of = 3::real\<rparr>, \<lparr>id_of = 2, val_of = 4\<rparr>]"
  let ?res = "\<lparr>overlap_qty = 1, overlap_dotprod_norm = 0::real, overlap_sum_left_norm = 0,
    overlap_sum_right_norm = 3 / 5, diff_sum_left_norm = 0, diff_sum_right_norm = 4 / 5\<rparr>"
  have run: "ComputeOverlapInfo sqrt ?A ?B = Some (Inr ?res)"
    by (simp add: ComputeOverlapInfo_def norm_loop.simps overlap_scan_def merge_loop.simps
        drain_left.simps drain_right.simps OverlapInfo_init_def normalize_def normalize_left_def
        normalize_right_def checked_div_def sqrt_25)
  have nl: "sqrt (sum_sq ?A) = 0" and nr: "sqrt (sum_sq ?B) = 5"
    by (simp_all add: sum_sq_def sqrt_25)
  from normalisation_skipped_unless_norm_positive [of sqrt ?A ?B] run
  obtain raw where "overlap_scan ?A ?B = Some (Inr raw)"
    and "overlap_sum_left_norm ?res = scaled (sqrt (sum_sq ?A)) (overlap_sum_left_norm raw)"
    and "diff_sum_left_norm ?res = scaled (sqrt (sum_sq ?A)) (diff_sum_left_norm raw)"
    and "overlap_sum_right_norm ?res = scaled (sqrt (sum_sq ?B)) (overlap_sum_right_norm raw)"
    and "diff_sum_right_norm ?res = scaled (sqrt (sum_sq ?B)) (diff_sum_right_norm raw)"
    by blast
  then show ?thesis
    using run nl nr by (auto simp: scaled_def)
qed

subsection \<open>The count is bounded by the left size\<close>

text \<open>
  C10. Whenever ComputeOverlapInfo returns a record, its \<^verbatim>\<open>overlap_qty_\<close> is at most the
  number of elements of the first (left) vector.
\<close>

theorem overlap_qty_at_most_left_size:
  fixes elemsA elemsB :: "('v::{zero,one,plus,times,inverse,ord}) SparseVectElem list"
  assumes "ComputeOverlapInfo fsqrt elemsA elemsB = Some (Inr res)"
  shows "overlap_qty res \<le> length elemsA"
proof -
  have sizes: "length elemsA < 2 ^ 32" "length elemsB < 2 ^ 32"
    using ComputeOverlapInfo_sizes [OF assms] by simp_all
  from assms obtain raw where raw: "overlap_scan elemsA elemsB = Some (Inr raw)"
    and n: "normalize (fsqrt (sum_sq elemsA)) (fsqrt (sum_sq elemsB)) raw = Inr res"
    by (auto simp: ComputeOverlapInfo_eq [OF sizes] split: option.splits sum.splits)
  from overlap_scan_run [OF sizes] raw have "overlap_qty raw \<le> length elemsA" by auto
  with normalize_Inr(1) [OF n] show ?thesis by simp
qed

theorem overlap_qty_at_most_left_size_witness:
  "ComputeOverlapInfo sqrt
     [\<lparr>id_of = 1, val_of = 3::real\<rparr>, \<lparr>id_of = 2, val_of = 4\<rparr>]
     [\<lparr>id_of = 2, val_of = 3\<rparr>, \<lparr>id_of = 3, val_of = 4\<rparr>]
   = Some (Inr \<lparr>overlap_qty = 1, overlap_dotprod_norm = 12 / 25, overlap_sum_left_norm = 4 / 5,
        overlap_sum_right_norm = 3 / 5, diff_sum_left_norm = 3 / 5, diff_sum_right_norm = 4 / 5\<rparr>)
   \<and> (1::nat) \<le> length [\<lparr>id_of = 1, val_of = 3::real\<rparr>, \<lparr>id_of = 2, val_of = 4\<rparr>]"
proof -
  let ?A = "[\<lparr>id_of = 1, val_of = 3::real\<rparr>, \<lparr>id_of = 2, val_of = 4\<rparr>]"
  let ?B = "[\<lparr>id_of = 2, val_of = 3::real\<rparr>, \<lparr>id_of = 3, val_of = 4\<rparr>]"
  have run: "ComputeOverlapInfo sqrt ?A ?B
    = Some (Inr \<lparr>overlap_qty = 1, overlap_dotprod_norm = 12 / 25, overlap_sum_left_norm = 4 / 5,
        overlap_sum_right_norm = 3 / 5, diff_sum_left_norm = 3 / 5, diff_sum_right_norm = 4 / 5\<rparr>)"
    by (simp add: ComputeOverlapInfo_def norm_loop.simps overlap_scan_def merge_loop.simps
        drain_left.simps drain_right.simps OverlapInfo_init_def normalize_def normalize_left_def
        normalize_right_def checked_div_def sqrt_25)
  from overlap_qty_at_most_left_size [OF run] run show ?thesis by simp
qed

subsection \<open>Round trip of the codec\<close>

text \<open>
  C5. For every element list \<open>v\<close> sorted ascending by id with unique ids, encoding
  (CreateObjFromVect with the encoder of the spec) yields a record, and decoding that
  record (CreateVectFromObj with the decoder of the spec) yields exactly \<open>v\<close>: the same
  order, ids and values. The bytes of a value are any encoding of fixed width that the
  decoder of values inverts.
\<close>

theorem encode_decode_roundtrip:
  assumes "\<forall>x. length (val_bytes x) = width \<and> bytes_val (val_bytes x) = x"
    and "sorted_unique v"
  shows "\<exists>obj h'. CreateObjFromVect (PackSparseElements width val_bytes) new_Object ident label v h
        = (Inr obj, h')
      \<and> CreateVectFromObj (UnpackSparseElements width bytes_val) obj h' = Inr v"
proof -
  have "length v \<le> 2 ^ 32" using assms(2) by (rule sorted_unique_length)
  then have small: "length v < 2 ^ 64" by simp
  from assms(1) have a: "\<And>x. length (val_bytes x) = width" "\<And>x. bytes_val (val_bytes x) = x"
    by simp_all
  from Decode_Encode [OF a small] show ?thesis
    by (simp add: CreateObjFromVect_def PackSparseElements_def new_Object_def
        CreateVectFromObj_def UnpackSparseElements_def Let_def)
qed

theorem encode_decode_roundtrip_witness:
  "(\<forall>x::32 word. length (le_bytes 4 (unat x)) = 4
      \<and> (word_of_nat (le_value (le_bytes 4 (unat x))) :: 32 word) = x)
   \<and> sorted_unique [\<lparr>id_of = 1, val_of = 1065353216 :: 32 word\<rparr>,
        \<lparr>id_of = 3, val_of = 1073741824\<rparr>]
   \<and> (\<exists>obj h'.
        CreateObjFromVect (PackSparseElements 4 (\<lambda>x. le_bytes 4 (unat x))) new_Object 7 0
          [\<lparr>id_of = 1, val_of = 1065353216 :: 32 word\<rparr>, \<lparr>id_of = 3, val_of = 1073741824\<rparr>] []
        = (Inr obj, h')
      \<and> CreateVectFromObj (UnpackSparseElements 4 (\<lambda>bs. word_of_nat (le_value bs))) obj h'
        = Inr [\<lparr>id_of = 1, val_of = 1065353216 :: 32 word\<rparr>, \<lparr>id_of = 3, val_of = 1073741824\<rparr>])"
proof -
  let ?v = "[\<lparr>id_of = 1, val_of = 1065353216 :: 32 word\<rparr>, \<lparr>id_of = 3, val_of = 1073741824\<rparr>]"
  have codec: "\<forall>x::32 word. length (le_bytes 4 (unat x)) = 4
      \<and> (word_of_nat (le_value (le_bytes 4 (unat x))) :: 32 word) = x"
    using id_bytes_roundtrip by (simp add: length_le_bytes)
  have valid: "sorted_unique ?v" by (simp add: sorted_unique_def)
  from encode_decode_roundtrip [OF codec valid, of 7 0 "[]"] codec valid show ?thesis by blast
qed

subsection \<open>The dense projection adds into the hashed slot\<close>

text \<open>
  C7. For a positive number of slots \<open>nElem\<close>, CreateDenseVectFromObj returns \<open>nElem\<close>
  slots; slot \<open>j\<close> holds the running total, from 0 and in order, of the weights of the
  elements whose slot \<open>indexHash(id) mod nElem\<close> is \<open>j\<close>; a slot that no element hits
  holds 0; and two elements with the weights 1 and 2 that hit the same slot leave 3 there
  and 0 in the other slots.
\<close>

theorem dense_slots_accumulate:
  fixes target :: "('v::{zero,plus}) SparseVectElem list"
  assumes "0 < nElem"
  shows "\<exists>pVect. CreateDenseVectFromObj indexHash target nElem = Inr pVect
      \<and> length pVect = nElem
      \<and> (\<forall>j<nElem. pVect ! j
           = foldl (+) 0 (map val_of (filter (\<lambda>e. slot_of indexHash nElem e = j) target)))
      \<and> (\<forall>j<nElem. (\<forall>e\<in>set target. slot_of indexHash nElem e \<noteq> j) \<longrightarrow> pVect ! j = 0)
      \<and> (\<forall>idA idB. indexHash (unat idA) mod nElem = indexHash (unat idB) mod nElem \<longrightarrow>
           CreateDenseVectFromObj indexHash
             [\<lparr>id_of = idA, val_of = 1::real\<rparr>, \<lparr>id_of = idB, val_of = 2\<rparr>] nElem
           = Inr ((replicate nElem 0)[indexHash (unat idA) mod nElem := 3]))"
proof -
  from dense_loop_slots [OF assms, of "replicate nElem (0::'v)" indexHash target]
  obtain q where q: "CreateDenseVectFromObj indexHash target nElem = Inr q" "length q = nElem"
    and slots: "\<And>j. j < nElem \<Longrightarrow> q ! j
      = foldl (+) 0 (map val_of (filter (\<lambda>e. slot_of indexHash nElem e = j) target))"
    by (auto simp: CreateDenseVectFromObj_def)
  have untouched: "q ! j = 0" if "j < nElem" "\<forall>e\<in>set target. slot_of indexHash nElem e \<noteq> j" for j
  proof -
    from that(2) have "filter (\<lambda>e. slot_of indexHash nElem e = j) target = []"
      by (simp add: filter_empty_conv)
    with slots [OF that(1)] show ?thesis by simp
  qed
  have collide: "CreateDenseVectFromObj indexHash
             [\<lparr>id_of = idA, val_of = 1::real\<rparr>, \<lparr>id_of = idB, val_of = 2\<rparr>] nElem
           = Inr ((replicate nElem 0)[indexHash (unat idA) mod nElem := 3])"
    if "indexHash (unat idA) mod nElem = indexHash (unat idB) mod nElem" for idA idB
    using that assms by (simp add: CreateDenseVectFromObj_def Let_def)
  from q slots untouched collide show ?thesis by blast
qed

theorem dense_slots_accumulate_witness:
  "(0::nat) < 4
   \<and> CreateDenseVectFromObj (\<lambda>x. x)
        [\<lparr>id_of = 1, val_of = 1::real\<rparr>, \<lparr>id_of = 5, val_of = 2\<rparr>] 4 = Inr [0, 3, 0, 0]
   \<and> (\<lambda>x. x) (unat (1::32 word)) mod 4 = (\<lambda>x. x) (unat (5::32 word)) mod (4::nat)"
proof -
  have pos: "(0::nat) < 4" by simp
  have hit: "(\<lambda>x. x) (unat (1::32 word)) mod 4 = (\<lambda>x. x) (unat (5::32 word)) mod (4::nat)"
    by simp
  from dense_slots_accumulate [OF pos, of "\<lambda>x. x"
      "[\<lparr>id_of = 1, val_of = 1::real\<rparr>, \<lparr>id_of = 5, val_of = 2\<rparr>]"] hit
  have "CreateDenseVectFromObj (\<lambda>x. x)
      [\<lparr>id_of = 1, val_of = 1::real\<rparr>, \<lparr>id_of = 5, val_of = 2\<rparr>] 4
    = Inr ((replicate 4 0)[(\<lambda>x. x) (unat (1::32 word)) mod 4 := 3])"
    by blast
  moreover have "replicate 4 (0::real) = [0, 0, 0, 0]"
    by (simp add: numeral_eq_Suc)
  ultimately show ?thesis by simp
qed

subsection \<open>The intersection count of two vectors\<close>

text \<open>
  C8. ComputeOverlap with two arguments, on vectors with the ids \<open>1, 3, 5, 7\<close> and
  \<open>3, 5, 9\<close> (any weights), returns 2, for either conversion of the ids; 2 is the number
  of ids common to both vectors.
\<close>

theorem ComputeOverlap_example:
  "ComputeOverlap uint
     [\<lparr>id_of = 1, val_of = a1\<rparr>, \<lparr>id_of = 3, val_of = a3\<rparr>, \<lparr>id_of = 5, val_of = a5\<rparr>,
      \<lparr>id_of = 7, val_of = a7\<rparr>]
     [\<lparr>id_of = 3, val_of = b3\<rparr>, \<lparr>id_of = 5, val_of = b5\<rparr>, \<lparr>id_of = 9, val_of = b9\<rparr>] = 2
   \<and> ComputeOverlap sint
     [\<lparr>id_of = 1, val_of = a1\<rparr>, \<lparr>id_of = 3, val_of = a3\<rparr>, \<lparr>id_of = 5, val_of = a5\<rparr>,
      \<lparr>id_of = 7, val_of = a7\<rparr>]
     [\<lparr>id_of = 3, val_of = b3\<rparr>, \<lparr>id_of = 5, val_of = b5\<rparr>, \<lparr>id_of = 9, val_of = b9\<rparr>] = 2
   \<and> card (id_of ` set [\<lparr>id_of = 1, val_of = a1\<rparr>, \<lparr>id_of = 3, val_of = a3\<rparr>,
        \<lparr>id_of = 5, val_of = a5\<rparr>, \<lparr>id_of = 7, val_of = a7\<rparr>]
      \<inter> id_of ` set [\<lparr>id_of = 3, val_of = b3\<rparr>, \<lparr>id_of = 5, val_of = b5\<rparr>,
        \<lparr>id_of = 9, val_of = b9\<rparr>]) = 2"
proof -
  have "{1, 3, 5, 7} \<inter> {3, 5, 9} = {3, 5 :: 32 word}" by auto
  then show ?thesis by (simp add: ComputeOverlap_def)
qed

subsection \<open>The buffer of CreateObjFromVect\<close>



end
